theory Spec2Isabelle
  imports Main "HOL-Library.Word"
begin

section \<open>The C++ types and library functions the headers use\<close>

text \<open>
  \<^verbatim>\<open>int\<close> is a 32-bit two's complement integer. Signed overflow, which C++
  leaves undefined, is written as the wrap-around the compiled code performs (the
  arithmetic of \<open>32 word\<close>); \<open>sint\<close> reads the C++ value.
\<close>

type_synonym cint = "32 word"

text \<open>
  A \<^verbatim>\<open>std::string\<close> is a list of bytes. A position (\<^verbatim>\<open>std::size_t\<close>) is a
  \<open>nat\<close>; \<^verbatim>\<open>string::npos\<close>, the all-ones value no position of a string reaches,
  is \<open>None\<close>. The two places where the code computes with a \<^verbatim>\<open>size_t\<close> that may
  leave the range of the positions are written out below (\<open>size_succ\<close>,
  \<open>size_minus\<close>).
\<close>

text \<open>
  \<^verbatim>\<open>s.find(pat, pos)\<close>: the lowest position \<open>i \<ge> pos\<close> with
  \<open>i + length pat \<le> length s\<close> at which \<open>pat\<close> occurs in \<open>s\<close>, \<^verbatim>\<open>npos\<close>
  when there is none. \<open>find_list\<close> scans from the head of the unread text.
\<close>

fun find_list :: "'a list \<Rightarrow> 'a list \<Rightarrow> nat option" where
  "find_list pat [] = (if pat = [] then Some 0 else None)"
| "find_list pat (x # xs) =
     (if take (length pat) (x # xs) = pat then Some 0
      else map_option Suc (find_list pat xs))"

definition str_find :: "string \<Rightarrow> string \<Rightarrow> nat \<Rightarrow> nat option" where
  "str_find s pat pos =
     (if length s < pos then None
      else map_option (\<lambda>i. pos + i) (find_list pat (drop pos s)))"

text \<open>
  \<^verbatim>\<open>s.substr(pos, n)\<close>: throws \<^verbatim>\<open>std::out_of_range\<close> (\<open>None\<close>) when
  \<open>pos > length s\<close>, otherwise the at most \<open>n\<close> bytes from \<open>pos\<close> on; the count
  \<^verbatim>\<open>npos\<close> (also the default) takes all of them.
\<close>

definition substr :: "string \<Rightarrow> nat \<Rightarrow> nat option \<Rightarrow> string option" where
  "substr s pos n =
     (if length s < pos then None
      else Some (case n of None \<Rightarrow> drop pos s | Some k \<Rightarrow> take k (drop pos s)))"

text \<open>\<^verbatim>\<open>space_ch + 1\<close> on a \<^verbatim>\<open>size_t\<close>: \<^verbatim>\<open>npos + 1\<close> wraps to 0.\<close>

definition size_succ :: "nat option \<Rightarrow> nat" where
  "size_succ p = (case p of None \<Rightarrow> 0 | Some i \<Rightarrow> i + 1)"

text \<open>\<^verbatim>\<open>cur - prev\<close> on two positions: below zero it wraps modulo \<open>2 ^ 64\<close>.\<close>

definition size_minus :: "nat \<Rightarrow> nat \<Rightarrow> nat" where
  "size_minus a b = (if b \<le> a then a - b else a + 2 ^ 64 - b)"

text \<open>
  \<^verbatim>\<open>s.c_str()\<close> as a C function reads it: the bytes before the first NUL.
\<close>

definition c_str :: "string \<Rightarrow> string" where
  "c_str s = takeWhile (\<lambda>c. c \<noteq> CHR 0x00) s"

text \<open>
  \<^verbatim>\<open>atoi\<close>, which is \<^verbatim>\<open>(int) strtol(nptr, NULL, 10)\<close>: skip the white space
  of the C locale, read an optional sign, then the longest run of decimal digits; no
  digit gives 0. \<^verbatim>\<open>strtol\<close> saturates at the bounds of \<^verbatim>\<open>long\<close> (64 bits) and
  the conversion to \<^verbatim>\<open>int\<close> keeps the low 32 bits.
\<close>

definition isspace :: "char \<Rightarrow> bool" where
  "isspace c = (c \<in> set [CHR '' '', CHR 0x09, CHR 0x0A, CHR 0x0B, CHR 0x0C, CHR 0x0D])"

definition isdigit :: "char \<Rightarrow> bool" where
  "isdigit c = (48 \<le> (of_char c :: nat) \<and> (of_char c :: nat) \<le> 57)"

definition digit_val :: "char \<Rightarrow> int" where
  "digit_val c = int (of_char c) - 48"

definition strtol_digits :: "string \<Rightarrow> int" where
  "strtol_digits ds = foldl (\<lambda>acc c. acc * 10 + digit_val c) 0 ds"

definition strtol :: "string \<Rightarrow> int" where
  "strtol s =
     (let s1 = dropWhile isspace s;
          neg = (s1 \<noteq> [] \<and> hd s1 = CHR ''-'');
          s2 = (if s1 \<noteq> [] \<and> (hd s1 = CHR ''-'' \<or> hd s1 = CHR ''+'') then tl s1 else s1);
          v = strtol_digits (takeWhile isdigit s2);
          r = (if neg then - v else v)
      in max (- (2 ^ 63)) (min (2 ^ 63 - 1) r))"

definition atoi :: "string \<Rightarrow> cint" where
  "atoi s = word_of_int (strtol s)"

text \<open>
  The declarations of the two headers, as they are written: each function's name, the
  types of its parameters and its return type. \<open>T_size_t\<close>, \<open>T_uint64\<close>,
  \<open>T_int64\<close> and \<open>T_char_array\<close> are the other types the headers use, for local
  variables and constants.
\<close>

datatype ctype =
  T_int | T_float | T_double | T_bool | T_string | T_accum
| T_size_t | T_uint64 | T_int64 | T_char_array

record udf_sig =
  udf_name :: string
  udf_params :: "ctype list"
  udf_ret :: ctype

section \<open>cicd/graph\_script/ExprFunctions.hpp\<close>

definition str_to_int :: "string \<Rightarrow> cint" where
  "str_to_int str = atoi (c_str str)"

definition delim :: string where
  "delim = '', ''"

text \<open>
  The \<^verbatim>\<open>while\<close> loop of \<^verbatim>\<open>get_minutes\<close>, with its variables \<open>prev\<close>, \<open>cur\<close>
  and \<^verbatim>\<open>total\<close> (here \<open>tot\<close>) as arguments. The result \<open>None\<close> is an
  exception of \<^verbatim>\<open>substr\<close> leaving the function.
\<close>

function gm_loop :: "string \<Rightarrow> nat \<Rightarrow> nat option \<Rightarrow> cint \<Rightarrow> cint option" where
  "gm_loop str prev cur tot =
     (case cur of
        None \<Rightarrow> Some tot
      | Some c \<Rightarrow>
          (case substr str prev (Some (size_minus c prev)) of
             None \<Rightarrow> None
           | Some time_str \<Rightarrow>
               (let space_ch = str_find time_str '' '' 0 in
                case substr time_str 0 space_ch of
                  None \<Rightarrow> None
                | Some num_str \<Rightarrow>
                    (case substr time_str (size_succ space_ch) None of
                       None \<Rightarrow> None
                     | Some unit_str \<Rightarrow>
                         (let num_t = str_to_int num_str;
                              tot' =
                                (if unit_str = ''days'' then tot + num_t * 60 * 24
                                 else if unit_str = ''hours'' then tot + num_t * 60
                                 else if unit_str = ''minutes'' then tot + num_t
                                 else tot)
                          in gm_loop str (c + 2) (str_find str delim (c + 2)) tot')))))"
  by pat_completeness auto
termination
proof (relation "measure (\<lambda>(str, prev, cur, tot).
         case cur of None \<Rightarrow> 0 | Some c \<Rightarrow> Suc (Suc (length str) - c))")
  show "wf (measure (\<lambda>(str, prev, cur, tot).
         case cur of None \<Rightarrow> 0 | Some c \<Rightarrow> Suc (Suc (length str) - c)))"
    by simp
next
  fix str :: string and prev :: nat and cur :: "nat option" and tot :: cint
    and c time_str space_ch num_str unit_str num_t tot'
  have bound: "i \<le> length s" if "find_list pat s = Some i" for pat s :: string and i
    using that by (induction s arbitrary: i) (auto split: if_splits)
  have "Suc (length str) - c' < Suc (length str) - c"
    if "str_find str delim (c + 2) = Some c'" for c'
  proof -
    from that obtain i where le: "c + 2 \<le> length str" and c': "c' = c + 2 + i"
      and i: "find_list delim (drop (c + 2) str) = Some i"
      by (auto simp: str_find_def split: if_splits)
    from bound [OF i] have "c + 2 + i \<le> length str" using le by simp
    with c' show ?thesis by simp
  qed
  then show "((str, c + 2, str_find str delim (c + 2), tot'), (str, prev, cur, tot))
      \<in> measure (\<lambda>(str, prev, cur, tot).
           case cur of None \<Rightarrow> 0 | Some c \<Rightarrow> Suc (Suc (length str) - c))"
    if "cur = Some c"
    using that by (auto split: option.splits)
qed

declare gm_loop.simps [simp del]

definition get_minutes :: "string \<Rightarrow> cint option" where
  "get_minutes str =
     (if str = [] then Some 0
      else gm_loop str 0 (str_find str delim 0) 0)"

definition is_contains :: "string \<Rightarrow> string \<Rightarrow> bool" where
  "is_contains str1 str2 = (str_find str1 str2 0 \<noteq> None)"

text \<open>
  \<^verbatim>\<open>float_to_int\<close> (the conversion \<^verbatim>\<open>(int) val\<close>) and \<^verbatim>\<open>to_string\<close>
  (\<^verbatim>\<open>sprintf\<close> with \<^verbatim>\<open>%g\<close>) compute on floating point numbers; only their
  declarations are modelled.
\<close>

definition ExprFunctions_prod :: "udf_sig list" where
  "ExprFunctions_prod =
     [\<lparr>udf_name = ''str_to_int'', udf_params = [T_string], udf_ret = T_int\<rparr>,
      \<lparr>udf_name = ''float_to_int'', udf_params = [T_float], udf_ret = T_int\<rparr>,
      \<lparr>udf_name = ''to_string'', udf_params = [T_double], udf_ret = T_string\<rparr>,
      \<lparr>udf_name = ''get_minutes'', udf_params = [T_string], udf_ret = T_int\<rparr>,
      \<lparr>udf_name = ''is_contains'', udf_params = [T_string, T_string], udf_ret = T_bool\<rparr>]"

section \<open>tests/fixtures/ExprFunctions.hpp\<close>

definition add_3 :: "cint \<Rightarrow> cint" where
  "add_3 num = num + 3"

definition ExprFunctions_fixture :: "udf_sig list" where
  "ExprFunctions_fixture =
     [\<lparr>udf_name = ''add_3'', udf_params = [T_int], udf_ret = T_int\<rparr>]"

section \<open>tests/fixtures/ExprUtil.hpp\<close>

text \<open>\<^verbatim>\<open>const uint64_t BASE = 1ULL << 63; const int64_t MOD = 9223372036854775783;\<close>\<close>

definition BASE :: "64 word" where
  "BASE = push_bit 63 1"

definition MOD :: "64 word" where
  "MOD = 9223372036854775783"

section \<open>Notions the properties are stated with\<close>

text \<open>The types the header's comment lists as supported for parameters and results.\<close>

definition supported :: "ctype \<Rightarrow> bool" where
  "supported t = (t \<in> set [T_int, T_float, T_double, T_bool, T_string, T_accum])"

text \<open>The value a string of decimal digits denotes, by the place of each digit.\<close>

fun dec_value :: "string \<Rightarrow> int" where
  "dec_value [] = 0"
| "dec_value (d # ds) = digit_val d * 10 ^ length ds + dec_value ds"

definition signed_value :: "string \<Rightarrow> string \<Rightarrow> int" where
  "signed_value sg ds = (if sg = ''-'' then - dec_value ds else dec_value ds)"

text \<open>
  Duration strings: a segment is a number, written as a string of decimal digits, a
  space and a unit. \<open>render_segments\<close> writes each segment followed by the delimiter,
  \<open>total_minutes\<close> is the duration the segments denote.
\<close>

datatype time_unit = Days | Hours | Minutes

fun unit_name :: "time_unit \<Rightarrow> string" where
  "unit_name Days = ''days''"
| "unit_name Hours = ''hours''"
| "unit_name Minutes = ''minutes''"

fun unit_minutes :: "time_unit \<Rightarrow> int" where
  "unit_minutes Days = 1440"
| "unit_minutes Hours = 60"
| "unit_minutes Minutes = 1"

definition render_segments :: "(string \<times> time_unit) list \<Rightarrow> string" where
  "render_segments segs = concat (map (\<lambda>(ds, u). ds @ '' '' @ unit_name u @ '', '') segs)"

definition total_minutes :: "(string \<times> time_unit) list \<Rightarrow> int" where
  "total_minutes segs = sum_list (map (\<lambda>(ds, u). dec_value ds * unit_minutes u) segs)"

text \<open>
  What one pass of the loop of \<^verbatim>\<open>get_minutes\<close> adds for the segment \<open>time_str\<close>,
  and the loop as a recursion on the text that is still unread (\<open>drop prev str\<close>).
  \<open>gm_loop_rest\<close> below proves that \<open>gm_loop\<close> computes \<open>gm_rest\<close>.
\<close>

definition seg_minutes :: "string \<Rightarrow> cint" where
  "seg_minutes time_str =
     (let space_ch = find_list '' '' time_str;
          num_str = (case space_ch of None \<Rightarrow> time_str | Some k \<Rightarrow> take k time_str);
          unit_str = drop (size_succ space_ch) time_str;
          num_t = str_to_int num_str
      in if unit_str = ''days'' then num_t * 60 * 24
         else if unit_str = ''hours'' then num_t * 60
         else if unit_str = ''minutes'' then num_t
         else 0)"

function gm_rest :: "string \<Rightarrow> cint \<Rightarrow> cint" where
  "gm_rest r tot =
     (case find_list delim r of
        None \<Rightarrow> tot
      | Some k \<Rightarrow> gm_rest (drop (k + 2) r) (tot + seg_minutes (take k r)))"
  by pat_completeness auto
termination
proof (relation "measure (\<lambda>(r, tot). length r)")
  show "wf (measure (\<lambda>(r, tot). length r))" by simp
next
  fix r :: string and tot :: cint and k
  assume "find_list delim r = Some k"
  then have "r \<noteq> []" by (auto simp: delim_def)
  then show "((drop (k + 2) r, tot + seg_minutes (take k r)), (r, tot))
      \<in> measure (\<lambda>(r, tot). length r)"
    by simp
qed

declare gm_rest.simps [simp del]

text \<open>Primality, by trial division.\<close>

definition is_prime :: "nat \<Rightarrow> bool" where
  "is_prime p = (1 < p \<and> (\<forall>d \<in> {2..<p}. \<not> d dvd p))"

text \<open>
  \<open>a ^ e mod n\<close>, and the same by repeated squaring along the binary digits of a
  numeral exponent, which the simplifier can run on 63-bit numbers.
\<close>

definition pow_mod :: "nat \<Rightarrow> nat \<Rightarrow> nat \<Rightarrow> nat" where
  "pow_mod n a e = a ^ e mod n"

primrec pow_mod_num :: "nat \<Rightarrow> nat \<Rightarrow> num \<Rightarrow> nat" where
  "pow_mod_num n a num.One = a mod n"
| "pow_mod_num n a (num.Bit0 k) = (pow_mod_num n a k) ^ 2 mod n"
| "pow_mod_num n a (num.Bit1 k) = (a * ((pow_mod_num n a k) ^ 2 mod n)) mod n"

text \<open>
  A certificate that \<open>n\<close> is prime (Lehmer's test): \<open>qs\<close> are the prime factors of
  \<open>n - 1\<close>, and \<open>a\<close> has order \<open>n - 1\<close> modulo \<open>n\<close>.
\<close>

definition lehmer_check :: "nat \<Rightarrow> nat \<Rightarrow> nat list \<Rightarrow> bool" where
  "lehmer_check n a qs =
     (2 \<le> n \<and> prod_list qs = n - 1 \<and> pow_mod n a (n - 1) = 1
      \<and> list_all (\<lambda>q. pow_mod n a ((n - 1) div q) \<noteq> 1) (remdups qs))"

section \<open>Properties\<close>

subsection \<open>Searching a string\<close>

lemma find_list_bound: "find_list pat s = Some i \<Longrightarrow> i + length pat \<le> length s"
proof (induction s arbitrary: i)
  case Nil
  then show ?case by (simp split: if_splits)
next
  case (Cons x xs)
  show ?case
  proof (cases "take (length pat) (x # xs) = pat")
    case True
    then have "length (take (length pat) (x # xs)) = length pat"
      by (rule arg_cong)
    then have "length pat \<le> length (x # xs)"
      unfolding length_take by linarith
    with True Cons.prems show ?thesis by simp
  next
    case False
    with Cons.prems obtain j where "find_list pat xs = Some j" "i = Suc j" by auto
    with Cons.IH show ?thesis by simp
  qed
qed

lemma find_list_match: "find_list pat s = Some i \<Longrightarrow> take (length pat) (drop i s) = pat"
  by (induction s arbitrary: i) (auto split: if_splits)

lemma find_list_least:
  "find_list pat s = Some i \<Longrightarrow> j < i \<Longrightarrow> take (length pat) (drop j s) \<noteq> pat"
proof (induction s arbitrary: i j)
  case Nil
  then show ?case by (simp split: if_splits)
next
  case (Cons x xs)
  then show ?case by (cases j) (auto split: if_splits)
qed

lemma find_list_occurs:
  "take (length pat) (drop j s) = pat \<Longrightarrow> j \<le> length s \<Longrightarrow> \<exists>i. find_list pat s = Some i \<and> i \<le> j"
proof (induction s arbitrary: j)
  case Nil
  then show ?case by auto
next
  case (Cons x xs)
  show ?case
  proof (cases "take (length pat) (x # xs) = pat")
    case True
    then show ?thesis by simp
  next
    case False
    with Cons.prems obtain k where k: "j = Suc k" by (cases j) auto
    with Cons.prems have "take (length pat) (drop k xs) = pat" "k \<le> length xs" by auto
    from Cons.IH [OF this] obtain i where "find_list pat xs = Some i" "i \<le> k" by blast
    with False k show ?thesis by simp
  qed
qed

lemma occurs_iff:
  "(\<exists>ps ss. s = ps @ pat @ ss) \<longleftrightarrow> (\<exists>j \<le> length s. take (length pat) (drop j s) = pat)"
proof
  assume "\<exists>ps ss. s = ps @ pat @ ss"
  then obtain ps ss where "s = ps @ pat @ ss" by blast
  then have "length ps \<le> length s" "take (length pat) (drop (length ps) s) = pat" by auto
  then show "\<exists>j \<le> length s. take (length pat) (drop j s) = pat" by blast
next
  assume "\<exists>j \<le> length s. take (length pat) (drop j s) = pat"
  then obtain j where j: "j \<le> length s" "take (length pat) (drop j s) = pat" by blast
  have "s = take j s @ take (length pat) (drop j s) @ drop (length pat) (drop j s)"
    by (metis append_take_drop_id)
  with j show "\<exists>ps ss. s = ps @ pat @ ss" by metis
qed

lemma find_list_None_iff: "find_list pat s = None \<longleftrightarrow> \<not> (\<exists>ps ss. s = ps @ pat @ ss)"
proof
  assume n: "find_list pat s = None"
  show "\<not> (\<exists>ps ss. s = ps @ pat @ ss)"
  proof
    assume "\<exists>ps ss. s = ps @ pat @ ss"
    then obtain j where "j \<le> length s" "take (length pat) (drop j s) = pat"
      unfolding occurs_iff by blast
    from find_list_occurs [OF this(2,1)] n show False by simp
  qed
next
  assume a: "\<not> (\<exists>ps ss. s = ps @ pat @ ss)"
  show "find_list pat s = None"
  proof (rule ccontr)
    assume "find_list pat s \<noteq> None"
    then obtain i where i: "find_list pat s = Some i" by auto
    from find_list_bound [OF i] find_list_match [OF i]
    have "\<exists>j \<le> length s. take (length pat) (drop j s) = pat" by (intro exI [of _ i]) simp
    with a show False unfolding occurs_iff by blast
  qed
qed

text \<open>\<open>str_find\<close> is the search the C++ standard describes.\<close>

lemma str_find_lowest:
  "str_find s pat pos = Some i \<longleftrightarrow>
     pos \<le> i \<and> i + length pat \<le> length s \<and> take (length pat) (drop i s) = pat
     \<and> (\<forall>j. pos \<le> j \<and> j < i \<longrightarrow> take (length pat) (drop j s) \<noteq> pat)"
  (is "?l \<longleftrightarrow> ?r")
proof
  assume ?l
  then obtain k where pos: "pos \<le> length s" and k: "find_list pat (drop pos s) = Some k"
    and i: "i = pos + k"
    by (auto simp: str_find_def split: if_splits)
  have "take (length pat) (drop j s) \<noteq> pat" if "pos \<le> j" "j < i" for j
  proof -
    from that i have "j - pos < k" by simp
    from find_list_least [OF k this] that show ?thesis by simp
  qed
  with find_list_bound [OF k] find_list_match [OF k] pos i show ?r
    by (simp add: add.commute)
next
  assume r: ?r
  then have pos: "pos \<le> length s" and il: "i \<le> length s" by simp_all
  from r have "take (length pat) (drop (i - pos) (drop pos s)) = pat" by simp
  moreover from il have "i - pos \<le> length (drop pos s)" by simp
  ultimately have "take (length pat) (drop (i - pos) (drop pos s)) = pat"
    "i - pos \<le> length (drop pos s)" .
  from find_list_occurs [OF this] obtain k where k: "find_list pat (drop pos s) = Some k"
    and le: "k \<le> i - pos" by blast
  from find_list_match [OF k] have "take (length pat) (drop (pos + k) s) = pat"
    by (simp add: add.commute)
  with r le have "\<not> pos + k < i" by auto
  moreover from r have "pos \<le> i" by simp
  ultimately have "i = pos + k" using le by linarith
  with pos k show ?l by (simp add: str_find_def)
qed

lemma str_find_npos:
  "str_find s pat pos = None \<longleftrightarrow>
     \<not> (\<exists>i. pos \<le> i \<and> i + length pat \<le> length s \<and> take (length pat) (drop i s) = pat)"
proof
  assume n: "str_find s pat pos = None"
  show "\<not> (\<exists>i. pos \<le> i \<and> i + length pat \<le> length s \<and> take (length pat) (drop i s) = pat)"
  proof
    assume "\<exists>i. pos \<le> i \<and> i + length pat \<le> length s \<and> take (length pat) (drop i s) = pat"
    then obtain i where i: "pos \<le> i" "i + length pat \<le> length s"
      "take (length pat) (drop i s) = pat" by blast
    then have "take (length pat) (drop (i - pos) (drop pos s)) = pat"
      "i - pos \<le> length (drop pos s)" by auto
    from find_list_occurs [OF this] i n show False
      by (auto simp: str_find_def split: if_splits)
  qed
next
  assume a: "\<not> (\<exists>i. pos \<le> i \<and> i + length pat \<le> length s \<and> take (length pat) (drop i s) = pat)"
  show "str_find s pat pos = None"
  proof (rule ccontr)
    assume "str_find s pat pos \<noteq> None"
    then obtain i where "str_find s pat pos = Some i" by auto
    with a show False unfolding str_find_lowest by blast
  qed
qed

lemma is_contains_iff: "is_contains str1 str2 \<longleftrightarrow> (\<exists>ps ss. str1 = ps @ str2 @ ss)"
  using find_list_None_iff [of str2 str1] by (simp add: is_contains_def str_find_def)

subsection \<open>The loop of get\_minutes\<close>

lemma take_append_le: "n \<le> length xs \<Longrightarrow> take n (xs @ ys) = take n xs"
  by simp

lemma find_list_append: "find_list pat s = Some i \<Longrightarrow> find_list pat (s @ t) = Some i"
proof (induction s arbitrary: i)
  case Nil
  then show ?case by (cases t) (auto split: if_splits)
next
  case (Cons x xs)
  show ?case
  proof (cases "take (length pat) (x # xs) = pat")
    case True
    then have "length (take (length pat) (x # xs)) = length pat" by (rule arg_cong)
    then have "length pat \<le> length (x # xs)" unfolding length_take by linarith
    then have "take (length pat) ((x # xs) @ t) = take (length pat) (x # xs)"
      by (rule take_append_le)
    with True Cons.prems show ?thesis by simp
  next
    case False
    with Cons.prems obtain j where j: "find_list pat xs = Some j" "i = Suc j" by auto
    from find_list_bound [OF j(1)] have "length pat \<le> length (x # xs)" by simp
    then have "take (length pat) ((x # xs) @ t) = take (length pat) (x # xs)"
      by (rule take_append_le)
    with False j Cons.IH [OF j(1)] show ?thesis by simp
  qed
qed

lemma find_space_bound: "find_list '' '' s = Some i \<Longrightarrow> Suc i \<le> length s"
  using find_list_bound [of "'' ''" s i] by simp

lemma gm_loop_None: "gm_loop str prev None tot = Some tot"
  by (simp add: gm_loop.simps)

lemma gm_loop_step:
  assumes "prev \<le> length str"
  shows "gm_loop str prev (Some (prev + k)) tot =
    gm_loop str (prev + k + 2) (str_find str delim (prev + k + 2))
      (tot + seg_minutes (take k (drop prev str)))"
proof -
  define t where "t = take k (drop prev str)"
  have sub: "substr str prev (Some (size_minus (prev + k) prev)) = Some t"
    using assms by (simp add: substr_def size_minus_def t_def)
  have sp: "str_find t '' '' 0 = find_list '' '' t"
    by (cases "find_list '' '' t") (simp_all add: str_find_def)
  have le: "size_succ (find_list '' '' t) \<le> length t"
    by (auto simp: size_succ_def split: option.splits dest: find_space_bound)
  have num: "substr t 0 (find_list '' '' t) =
      Some (case find_list '' '' t of None \<Rightarrow> t | Some k \<Rightarrow> take k t)"
    by (simp add: substr_def split: option.splits)
  have unit: "substr t (size_succ (find_list '' '' t)) None =
      Some (drop (size_succ (find_list '' '' t)) t)"
    using le by (simp add: substr_def)
  show ?thesis
    apply (subst gm_loop.simps)
    apply (simp only: option.case sub sp Let_def num unit)
    apply (simp add: seg_minutes_def Let_def t_def [symmetric] add.assoc)
    done
qed

lemma gm_rest_None: "find_list delim r = None \<Longrightarrow> gm_rest r tot = tot"
  by (subst gm_rest.simps) simp

lemma gm_rest_Some:
  "find_list delim r = Some k \<Longrightarrow>
   gm_rest r tot = gm_rest (drop (k + 2) r) (tot + seg_minutes (take k r))"
  by (subst gm_rest.simps) simp

lemma gm_rest_Nil: "gm_rest [] tot = tot"
  by (rule gm_rest_None) (simp add: delim_def)

lemma gm_loop_rest:
  "prev \<le> length str \<Longrightarrow>
   gm_loop str prev (str_find str delim prev) tot = Some (gm_rest (drop prev str) tot)"
proof (induction "drop prev str" tot arbitrary: prev rule: gm_rest.induct)
  case (1 tot)
  show ?case
  proof (cases "find_list delim (drop prev str)")
    case None
    with "1.prems" show ?thesis by (simp add: str_find_def gm_loop_None gm_rest_None)
  next
    case (Some k)
    from find_list_bound [OF Some] "1.prems" have le: "prev + k + 2 \<le> length str"
      by (simp add: delim_def)
    have d: "drop (k + 2) (drop prev str) = drop (prev + k + 2) str"
      by (simp add: add.commute add.left_commute)
    have "gm_loop str prev (str_find str delim prev) tot =
        gm_loop str prev (Some (prev + k)) tot"
      using Some "1.prems" by (simp add: str_find_def)
    also have "\<dots> = gm_loop str (prev + k + 2) (str_find str delim (prev + k + 2))
        (tot + seg_minutes (take k (drop prev str)))"
      using "1.prems" by (rule gm_loop_step)
    also have "\<dots> = Some (gm_rest (drop (prev + k + 2) str)
        (tot + seg_minutes (take k (drop prev str))))"
      using "1.hyps" [OF Some d le] .
    also have "\<dots> = Some (gm_rest (drop prev str) tot)"
      using Some d by (simp add: gm_rest_Some)
    finally show ?thesis .
  qed
qed

lemma get_minutes_rest: "get_minutes s = Some (gm_rest s 0)"
proof (cases "s = []")
  case True
  then show ?thesis by (simp add: get_minutes_def gm_rest_Nil)
next
  case False
  then show ?thesis using gm_loop_rest [of 0 s 0] by (simp add: get_minutes_def)
qed

lemma gm_rest_acc: "gm_rest r tot = tot + gm_rest r 0"
proof (induction r arbitrary: tot rule: length_induct)
  case (1 r)
  show ?case
  proof (cases "find_list delim r")
    case None
    then show ?thesis by (simp add: gm_rest_None)
  next
    case (Some k)
    then have "r \<noteq> []" by (auto simp: delim_def)
    then have less: "length (drop (k + 2) r) < length r" by simp
    have "gm_rest (drop (k + 2) r) (tot + seg_minutes (take k r)) =
        tot + seg_minutes (take k r) + gm_rest (drop (k + 2) r) 0"
      using "1.IH" less by blast
    moreover have "gm_rest (drop (k + 2) r) (0 + seg_minutes (take k r)) =
        0 + seg_minutes (take k r) + gm_rest (drop (k + 2) r) 0"
      using "1.IH" less by blast
    ultimately show ?thesis
      by (simp add: gm_rest_Some [OF Some] add.assoc)
  qed
qed

lemma delim_tail:
  assumes r: "r = u @ delim" and f: "find_list delim r = Some k"
  shows "drop (k + 2) r = [] \<or> (\<exists>u'. drop (k + 2) r = u' @ delim)"
proof -
  from find_list_bound [OF f] r have kb: "k \<le> length u" by (simp add: delim_def)
  from find_list_match [OF f] have m: "take 2 (drop k r) = delim"
    by (simp add: delim_def numeral_2_eq_2)
  consider "k + 2 \<le> length u" | "k + 1 = length u" | "k = length u"
    using kb by linarith
  then show ?thesis
  proof cases
    case 1
    then have "drop (k + 2) r = drop (k + 2) u @ delim" using r by simp
    then show ?thesis by blast
  next
    case 2
    then have "length (drop k u) = Suc 0" by simp
    then obtain c where "drop k u = [c]" by (cases "drop k u") auto
    moreover have "drop k r = drop k u @ delim" using 2 r by simp
    ultimately have "take 2 (drop k r) = [c, CHR '','']"
      by (simp add: delim_def numeral_2_eq_2)
    with m show ?thesis by (simp add: delim_def)
  next
    case 3
    then show ?thesis using r by (simp add: delim_def)
  qed
qed

lemma gm_rest_append:
  "r = [] \<or> (\<exists>u. r = u @ delim) \<Longrightarrow> gm_rest (r @ s2) tot = gm_rest s2 (gm_rest r tot)"
proof (induction r arbitrary: tot rule: length_induct)
  case (1 r)
  show ?case
  proof (cases "r = []")
    case True
    then show ?thesis by (simp add: gm_rest_Nil)
  next
    case False
    with "1.prems" obtain u where r: "r = u @ delim" by blast
    then have "\<exists>ps ss. r = ps @ delim @ ss" by (intro exI [of _ u] exI [of _ "[]"]) simp
    then obtain k where k: "find_list delim r = Some k"
      using find_list_None_iff [of delim r] by auto
    from find_list_bound [OF k] have kb: "k + 2 \<le> length r" by (simp add: delim_def)
    have less: "length (drop (k + 2) r) < length r" using False by simp
    have "gm_rest (r @ s2) tot =
        gm_rest (drop (k + 2) (r @ s2)) (tot + seg_minutes (take k (r @ s2)))"
      by (rule gm_rest_Some) (rule find_list_append [OF k])
    also have "\<dots> = gm_rest (drop (k + 2) r @ s2) (tot + seg_minutes (take k r))"
      using kb by simp
    also have "\<dots> = gm_rest s2 (gm_rest (drop (k + 2) r) (tot + seg_minutes (take k r)))"
      using "1.IH" less delim_tail [OF r k] by blast
    also have "\<dots> = gm_rest s2 (gm_rest r tot)"
      by (simp add: gm_rest_Some [OF k])
    finally show ?thesis .
  qed
qed


subsection \<open>Reading a number\<close>

lemma foldl_dec_value:
  "foldl (\<lambda>acc c. acc * 10 + digit_val c) a ds = a * 10 ^ length ds + dec_value ds"
  by (induction ds arbitrary: a) (simp_all add: algebra_simps)

lemma strtol_digits_dec: "strtol_digits ds = dec_value ds"
  by (simp add: strtol_digits_def foldl_dec_value)

lemma isdigit_not_special:
  "isdigit c \<Longrightarrow> \<not> isspace c \<and> c \<noteq> CHR ''-'' \<and> c \<noteq> CHR ''+'' \<and> c \<noteq> CHR 0x00"
  by (auto simp: isdigit_def isspace_def)

lemma sign_not_space: "\<not> isspace CHR ''-''" "\<not> isspace CHR ''+''"
  by (simp_all add: isspace_def)

lemma isspace_not_NUL: "isspace c \<Longrightarrow> c \<noteq> CHR 0x00"
  by (auto simp: isspace_def)

lemma strtol_signed_digits:
  assumes sg: "sg \<in> {[], ''+'', ''-''}" and ne: "ds \<noteq> []"
    and dig: "\<forall>c \<in> set ds. isdigit c"
  shows "strtol (sg @ ds) = max (- (2 ^ 63)) (min (2 ^ 63 - 1) (signed_value sg ds))"
proof -
  from ne obtain d ds' where ds: "ds = d # ds'" by (cases ds) auto
  with dig have d: "isdigit d" by simp
  have tw: "takeWhile isdigit ds = ds" using dig by (simp add: takeWhile_eq_all_conv)
  from sg consider "sg = []" | "sg = ''+''" | "sg = ''-''" by blast
  then show ?thesis
  proof cases
    case 1
    then show ?thesis
      using isdigit_not_special [OF d] tw [unfolded ds]
      by (simp add: strtol_def ds signed_value_def strtol_digits_dec Let_def)
  next
    case 2
    then show ?thesis
      by (simp add: strtol_def sign_not_space signed_value_def strtol_digits_dec Let_def tw)
  next
    case 3
    then show ?thesis
      by (simp add: strtol_def sign_not_space signed_value_def strtol_digits_dec Let_def tw)
  qed
qed

lemma c_str_signed_digits:
  assumes "sg \<in> {[], ''+'', ''-''}" and "\<forall>c \<in> set ds. isdigit c"
  shows "c_str (sg @ ds) = sg @ ds"
proof -
  have "c \<noteq> CHR 0x00" if "c \<in> set (sg @ ds)" for c
  proof -
    from that consider "c \<in> set sg" | "c \<in> set ds" by auto
    then show ?thesis
    proof cases
      case 1
      with assms(1) have "c = CHR ''+'' \<or> c = CHR ''-''" by auto
      then show ?thesis by auto
    next
      case 2
      with assms(2) have "isdigit c" by blast
      then show ?thesis by (simp add: isdigit_not_special)
    qed
  qed
  then have "\<forall>c \<in> set (sg @ ds). c \<noteq> CHR 0x00" by blast
  then show ?thesis unfolding c_str_def by (simp only: takeWhile_eq_all_conv)
qed

lemma str_to_int_signed_digits:
  assumes sg: "sg \<in> {[], ''+'', ''-''}" and ne: "ds \<noteq> []"
    and dig: "\<forall>c \<in> set ds. isdigit c"
    and lo: "- (2 ^ 31) \<le> signed_value sg ds" and hi: "signed_value sg ds < 2 ^ 31"
  shows "sint (str_to_int (sg @ ds)) = signed_value sg ds"
proof -
  have "strtol (sg @ ds) = signed_value sg ds"
    using lo hi by (simp add: strtol_signed_digits [OF sg ne dig])
  then have "str_to_int (sg @ ds) = word_of_int (signed_value sg ds)"
    by (simp add: str_to_int_def atoi_def c_str_signed_digits [OF sg dig])
  then show ?thesis
    using lo hi by (simp add: sint_sbintrunc' signed_take_bit_int_eq_self)
qed

lemma dropWhile_takeWhile_commute:
  "(\<And>x. P x \<Longrightarrow> Q x) \<Longrightarrow> dropWhile P (takeWhile Q xs) = takeWhile Q (dropWhile P xs)"
  by (induction xs) auto

lemma strtol_no_digit:
  assumes "\<not> (\<exists>sg ds rest. sg \<in> {[], ''+'', ''-''} \<and> ds \<noteq> [] \<and> (\<forall>c \<in> set ds. isdigit c)
      \<and> dropWhile isspace s = sg @ ds @ rest)"
  shows "strtol (c_str s) = 0"
proof -
  define r where "r = dropWhile isspace (c_str s)"
  define s2 where
    "s2 = (if r \<noteq> [] \<and> (hd r = CHR ''-'' \<or> hd r = CHR ''+'') then tl r else r)"
  have "r = takeWhile (\<lambda>c. c \<noteq> CHR 0x00) (dropWhile isspace s)"
    unfolding r_def c_str_def by (rule dropWhile_takeWhile_commute) (rule isspace_not_NUL)
  then obtain rest where rest: "dropWhile isspace s = r @ rest"
    by (metis takeWhile_dropWhile_id)
  obtain sg where sg: "sg \<in> {[], ''+'', ''-''}" and r: "r = sg @ s2"
  proof (cases "r \<noteq> [] \<and> (hd r = CHR ''-'' \<or> hd r = CHR ''+'')")
    case True
    then have "r = [hd r] @ s2" "[hd r] \<in> {[], ''+'', ''-''}"
      by (auto simp: s2_def)
    then show ?thesis using that by blast
  next
    case False
    then have "r = [] @ s2" by (auto simp: s2_def)
    then show ?thesis using that by blast
  qed
  have "takeWhile isdigit s2 = []"
  proof (rule ccontr)
    assume "takeWhile isdigit s2 \<noteq> []"
    then obtain d s2' where "s2 = d # s2'" "isdigit d"
      by (cases s2) (auto split: if_splits)
    then have "dropWhile isspace s = sg @ [d] @ (s2' @ rest)" "\<forall>c \<in> set [d]. isdigit c"
      using r rest by simp_all
    with sg assms show False by blast
  qed
  then show ?thesis
    unfolding strtol_def Let_def r_def [symmetric] s2_def [symmetric]
    by (simp add: strtol_digits_def)
qed

subsection \<open>Strings of segments\<close>

lemma find_list_single:
  "x \<notin> set xs \<Longrightarrow> find_list [x] (xs @ x # rest) = Some (length xs)"
  by (induction xs) auto

lemma find_list_delim:
  "CHR '','' \<notin> set xs \<Longrightarrow> find_list delim (xs @ delim @ rest) = Some (length xs)"
  by (induction xs) (auto simp: delim_def)

lemma str_to_int_digits:
  assumes ne: "ds \<noteq> []" and dig: "\<forall>c \<in> set ds. isdigit c" and hi: "dec_value ds < 2 ^ 31"
  shows "str_to_int ds = word_of_int (dec_value ds)"
proof -
  have nonneg: "0 \<le> dec_value ds" using dig
    by (induction ds) (auto simp: isdigit_def digit_val_def)
  have sg: "[] \<in> {[], ''+'', ''-''}" by simp
  have "strtol ds = dec_value ds"
    using strtol_signed_digits [OF sg ne dig] nonneg hi by (simp add: signed_value_def)
  then show ?thesis
    using c_str_signed_digits [OF sg dig] by (simp add: str_to_int_def atoi_def)
qed

lemma digits_no_space_comma:
  "\<forall>c \<in> set ds. isdigit c \<Longrightarrow> CHR '' '' \<notin> set ds \<and> CHR '','' \<notin> set ds"
  by (auto simp: isdigit_def)

lemma unit_minutes_nonneg: "0 \<le> unit_minutes u"
  by (cases u) simp_all

lemma unit_name_no_comma: "CHR '','' \<notin> set (unit_name u)"
  by (cases u) simp_all

lemma seg_minutes_render:
  assumes ne: "ds \<noteq> []" and dig: "\<forall>c \<in> set ds. isdigit c" and hi: "dec_value ds < 2 ^ 31"
  shows "seg_minutes (ds @ '' '' @ unit_name u) = word_of_int (dec_value ds * unit_minutes u)"
proof -
  from digits_no_space_comma [OF dig] have "CHR '' '' \<notin> set ds" by simp
  then have sp: "find_list '' '' (ds @ '' '' @ unit_name u) = Some (length ds)"
    using find_list_single [of "CHR '' ''" ds "unit_name u"] by simp
  show ?thesis
    unfolding seg_minutes_def sp Let_def
    by (cases u) (simp_all add: size_succ_def str_to_int_digits [OF ne dig hi])
qed

lemma gm_rest_render:
  assumes "\<forall>(ds, u) \<in> set segs. ds \<noteq> [] \<and> (\<forall>c \<in> set ds. isdigit c) \<and> dec_value ds < 2 ^ 31"
  shows "gm_rest (render_segments segs) tot = tot + word_of_int (total_minutes segs)"
  using assms
proof (induction segs arbitrary: tot)
  case Nil
  then show ?case by (simp add: render_segments_def total_minutes_def gm_rest_Nil)
next
  case (Cons seg segs)
  obtain ds u where seg: "seg = (ds, u)" by (cases seg)
  with Cons.prems have ne: "ds \<noteq> []" and dig: "\<forall>c \<in> set ds. isdigit c"
    and hi: "dec_value ds < 2 ^ 31" by auto
  define t where "t = ds @ '' '' @ unit_name u"
  have r: "render_segments (seg # segs) = t @ delim @ render_segments segs"
    by (simp add: render_segments_def seg t_def delim_def)
  have "CHR '','' \<notin> set t"
    using digits_no_space_comma [OF dig] unit_name_no_comma [of u] by (simp add: t_def)
  then have f: "find_list delim (render_segments (seg # segs)) = Some (length t)"
    unfolding r by (rule find_list_delim)
  have "gm_rest (render_segments (seg # segs)) tot =
      gm_rest (render_segments segs) (tot + seg_minutes t)"
    by (simp add: gm_rest_Some [OF f]) (simp add: r delim_def)
  also have "\<dots> = tot + seg_minutes t + word_of_int (total_minutes segs)"
    using Cons.prems by (intro Cons.IH) simp
  also have "seg_minutes t = word_of_int (dec_value ds * unit_minutes u)"
    unfolding t_def by (rule seg_minutes_render [OF ne dig hi])
  finally show ?case by (simp add: total_minutes_def seg add.assoc)
qed

text \<open>
  The loop does sum the segments that a delimiter follows: for numbers written as
  non-empty strings of decimal digits with values below \<open>2 ^ 31\<close>, the result is the
  total in minutes as an \<^verbatim>\<open>int\<close> (modulo \<open>2 ^ 32\<close>).
\<close>

lemma get_minutes_terminated_segments:
  assumes "\<forall>(ds, u) \<in> set segs. ds \<noteq> [] \<and> (\<forall>c \<in> set ds. isdigit c) \<and> dec_value ds < 2 ^ 31"
  shows "\<exists>r. get_minutes (render_segments segs) = Some r
    \<and> r = word_of_int (total_minutes segs)
    \<and> (total_minutes segs < 2 ^ 31 \<longrightarrow> sint r = total_minutes segs)"
proof -
  have nonneg: "0 \<le> dec_value ds" if "\<forall>c \<in> set ds. isdigit c" for ds
    using that by (induction ds) (auto simp: isdigit_def digit_val_def)
  have "0 \<le> total_minutes segs"
    using assms unfolding total_minutes_def
    by (intro sum_list_nonneg) (auto simp: nonneg unit_minutes_nonneg)
  then have "total_minutes segs < 2 ^ 31 \<longrightarrow>
      sint (word_of_int (total_minutes segs) :: cint) = total_minutes segs"
    by (simp add: sint_sbintrunc' signed_take_bit_int_eq_self)
  then show ?thesis
    by (simp add: get_minutes_rest gm_rest_render [OF assms])
qed

lemma get_minutes_terminated_example:
  "get_minutes ''2 days, 3 hours, 30 minutes, '' = Some 3090"
proof -
  have a: "\<forall>(ds, u) \<in> set [(''2'', Days), (''3'', Hours), (''30'', Minutes)].
      ds \<noteq> [] \<and> (\<forall>c \<in> set ds. isdigit c) \<and> dec_value ds < 2 ^ 31"
    by (simp add: isdigit_def digit_val_def)
  have t: "total_minutes [(''2'', Days), (''3'', Hours), (''30'', Minutes)] = 3090"
    by (simp add: total_minutes_def digit_val_def)
  have r: "render_segments [(''2'', Days), (''3'', Hours), (''30'', Minutes)] =
      ''2 days, 3 hours, 30 minutes, ''"
    by (simp add: render_segments_def)
  from get_minutes_terminated_segments [OF a] show ?thesis
    unfolding t r by simp
qed

subsection \<open>Primality certificates\<close>

lemma pow_mod_numeral: "pow_mod n a (numeral k) = pow_mod_num n a k"
proof (induction k)
  case One
  then show ?case by (simp add: pow_mod_def)
next
  case (Bit0 k)
  have "(numeral (num.Bit0 k) :: nat) = numeral k + numeral k"
    by (rule numeral_Bit0)
  then have "a ^ numeral (num.Bit0 k) = (a ^ numeral k) ^ 2"
    by (simp only: power_add power2_eq_square)
  then have "pow_mod n a (numeral (num.Bit0 k)) = (pow_mod n a (numeral k)) ^ 2 mod n"
    by (simp add: pow_mod_def power_mod)
  then show ?case using Bit0 by simp
next
  case (Bit1 k)
  have "(numeral (num.Bit1 k) :: nat) = numeral k + numeral k + 1"
    by (rule numeral_Bit1)
  then have "a ^ numeral (num.Bit1 k) = a * (a ^ numeral k) ^ 2"
    by (simp only: power_add power2_eq_square power_one_right mult_ac)
  then have "pow_mod n a (numeral (num.Bit1 k)) = (a * ((pow_mod n a (numeral k)) ^ 2 mod n)) mod n"
    by (simp add: pow_mod_def power_mod mod_mult_right_eq)
  then show ?case using Bit1 by simp
qed

lemma pow_mod_1: "pow_mod n a 1 = a mod n"
  by (simp add: pow_mod_def)

lemma is_prime_dvd:
  assumes p: "is_prime p" and d: "d dvd p"
  shows "d = 1 \<or> d = p"
proof (rule ccontr)
  assume n: "\<not> (d = 1 \<or> d = p)"
  from p have "0 < p" by (simp add: is_prime_def)
  with d have "d \<le> p" "d \<noteq> 0" by (auto dest: dvd_imp_le)
  with n have "d \<in> {2..<p}" by simp
  with p d show False by (simp add: is_prime_def)
qed

lemma prime_factor_exists: "1 < n \<Longrightarrow> \<exists>p. is_prime p \<and> p dvd n"
proof (induction n rule: less_induct)
  case (less n)
  show ?case
  proof (cases "is_prime n")
    case True
    then show ?thesis by (intro exI [of _ n]) simp
  next
    case False
    with less.prems obtain d where d: "d \<in> {2..<n}" "d dvd n"
      by (auto simp: is_prime_def)
    then have "d < n" "1 < d" by simp_all
    from less.IH [OF this] obtain p where "is_prime p" "p dvd d" by blast
    with d(2) show ?thesis by (blast intro: dvd_trans)
  qed
qed

lemma is_prime_coprime: "is_prime p \<Longrightarrow> \<not> p dvd a \<Longrightarrow> coprime p a"
proof (rule coprimeI)
  fix c assume p: "is_prime p" and na: "\<not> p dvd a" and c: "c dvd p" "c dvd a"
  from is_prime_dvd [OF p c(1)] c(2) na show "is_unit c" by auto
qed

lemma is_prime_dvd_mult: "is_prime p \<Longrightarrow> p dvd a * b \<Longrightarrow> p dvd a \<or> p dvd b"
  using is_prime_coprime [of p a] coprime_dvd_mult_right_iff [of p a b] by blast

lemma is_prime_dvd_prod_list:
  "is_prime p \<Longrightarrow> \<forall>q \<in> set qs. is_prime q \<Longrightarrow> p dvd prod_list qs \<Longrightarrow> p \<in> set qs"
proof (induction qs)
  case Nil
  then show ?case by (simp add: is_prime_def)
next
  case (Cons q qs)
  from Cons.prems(3) have "p dvd q * prod_list qs" by simp
  with is_prime_dvd_mult [OF Cons.prems(1)] consider "p dvd q" | "p dvd prod_list qs" by blast
  then show ?case
  proof cases
    case 1
    from Cons.prems(2) have "is_prime q" by simp
    from is_prime_dvd [OF this 1] Cons.prems(1) show ?thesis by (auto simp: is_prime_def)
  next
    case 2
    with Cons show ?thesis by simp
  qed
qed

lemma unit_mod_coprime:
  fixes x y n :: nat
  assumes "(x * y) mod n = 1"
  shows "coprime x n"
proof (rule coprimeI)
  fix c assume "c dvd x" "c dvd n"
  then have "c dvd (x * y) mod n" by (simp add: dvd_mod)
  with assms show "is_unit c" by simp
qed

lemma lehmer:
  assumes chk: "lehmer_check n a qs" and pr: "\<forall>q \<in> set qs. is_prime q"
  shows "is_prime n"
proof -
  from chk have n2: "2 \<le> n" and prod: "prod_list qs = n - 1"
    and one: "a ^ (n - 1) mod n = 1"
    and ne: "\<And>q. q \<in> set qs \<Longrightarrow> a ^ ((n - 1) div q) mod n \<noteq> 1"
    by (auto simp: lehmer_check_def pow_mod_def list_all_iff)
  define P where "P k \<longleftrightarrow> 0 < k \<and> a ^ k mod n = 1" for k
  define d where "d = (LEAST k. P k)"
  have "P (n - 1)" using n2 one by (simp add: P_def)
  then have Pd: "P d" unfolding d_def by (rule LeastI)
  have d_min: "\<not> P k" if "k < d" for k
    using that unfolding d_def by (rule not_less_Least)
  from Pd have d0: "0 < d" and ad: "a ^ d mod n = 1" by (simp_all add: P_def)
  have pow_d: "(a ^ d) ^ m mod n = 1" for m
  proof -
    have "(a ^ d) ^ m mod n = (a ^ d mod n) ^ m mod n" by (simp add: power_mod)
    also have "\<dots> = 1" using ad n2 by simp
    finally show ?thesis .
  qed
  have d_dvd: "d dvd k" if k: "a ^ k mod n = 1" for k
  proof -
    have "a ^ k = (a ^ d) ^ (k div d) * a ^ (k mod d)"
      by (simp add: power_mult [symmetric] power_add [symmetric])
    then have "a ^ k mod n = ((a ^ d) ^ (k div d) mod n * (a ^ (k mod d) mod n)) mod n"
      by (simp add: mod_mult_eq)
    with k have "a ^ (k mod d) mod n = 1" by (simp add: pow_d)
    moreover have "k mod d < d" using d0 by simp
    ultimately have "\<not> 0 < k mod d" using d_min [of "k mod d"] by (auto simp: P_def)
    then show ?thesis by (simp add: dvd_eq_mod_eq_0)
  qed
  have d_eq: "d = n - 1"
  proof (rule ccontr)
    assume neq: "d \<noteq> n - 1"
    from d_dvd [OF one] obtain m where m: "n - 1 = d * m" by (auto elim: dvdE)
    with neq n2 have "1 < m" by (cases m; cases "m - 1") auto
    from prime_factor_exists [OF this] obtain p where p: "is_prime p" "p dvd m" by blast
    then have "p dvd prod_list qs" using m prod by simp
    from is_prime_dvd_prod_list [OF p(1) pr this] have pq: "p \<in> set qs" .
    from p(2) have "(n - 1) div p = d * (m div p)"
      using m by (simp add: div_mult_swap)
    then have "a ^ ((n - 1) div p) mod n = 1"
      by (simp add: power_mult pow_d)
    with ne [OF pq] show False by simp
  qed
  have distinct: "a ^ i mod n \<noteq> a ^ j mod n" if ij: "i < j" "j < d" for i j
  proof
    assume eq: "a ^ i mod n = a ^ j mod n"
    have "a ^ (i + (d - j)) mod n = (a ^ i mod n * (a ^ (d - j) mod n)) mod n"
      by (simp add: power_add mod_mult_eq)
    also have "\<dots> = (a ^ j mod n * (a ^ (d - j) mod n)) mod n" by (simp only: eq)
    also have "\<dots> = a ^ (j + (d - j)) mod n" by (simp add: power_add mod_mult_eq)
    also have "\<dots> = 1" using ij ad by simp
    finally have "P (i + (d - j))" using ij by (simp add: P_def)
    moreover have "i + (d - j) < d" using ij by simp
    ultimately show False using d_min by blast
  qed
  define f where "f i = a ^ i mod n" for i
  have inj: "inj_on f {0..<d}"
  proof (rule inj_onI)
    fix i j assume "i \<in> {0..<d}" "j \<in> {0..<d}" "f i = f j"
    then show "i = j"
      using distinct [of i j] distinct [of j i] by (cases i j rule: linorder_cases) (auto simp: f_def)
  qed
  have cop: "coprime (f i) n" if "i < d" for i
  proof -
    have "(f i * a ^ (d - i)) mod n = a ^ (i + (d - i)) mod n"
      by (simp add: f_def power_add mod_mult_left_eq)
    also have "\<dots> = 1" using that ad by simp
    finally show ?thesis by (rule unit_mod_coprime)
  qed
  have sub: "f ` {0..<d} \<subseteq> {1..<n}"
  proof
    fix x assume "x \<in> f ` {0..<d}"
    then obtain i where i: "i < d" "x = f i" by auto
    have "x < n" using n2 i by (simp add: f_def)
    moreover have "x \<noteq> 0"
    proof
      assume "x = 0"
      with cop [OF i(1)] i(2) have "coprime 0 n" by simp
      with n2 show False by simp
    qed
    ultimately show "x \<in> {1..<n}" by simp
  qed
  have "card (f ` {0..<d}) = card {1..<n}"
    using inj d_eq by (simp add: card_image)
  with sub have img: "f ` {0..<d} = {1..<n}"
    by (intro card_subset_eq) simp_all
  have "\<not> c dvd n" if c: "c \<in> {2..<n}" for c
  proof
    assume cn: "c dvd n"
    from c have "c \<in> f ` {0..<d}" unfolding img by simp
    then obtain i where "i < d" "c = f i" by auto
    with cop have "coprime c n" by simp
    with cn have "c = 1" by (simp add: coprime_absorb_left)
    with c show False by simp
  qed
  with n2 show ?thesis by (auto simp: is_prime_def)
qed

lemma not_primeI: "d dvd n \<Longrightarrow> 2 \<le> d \<Longrightarrow> d < n \<Longrightarrow> \<not> is_prime n"
  by (auto simp: is_prime_def)

lemma pow_mod_Suc_0: "pow_mod n a (Suc 0) = a mod n"
  by (simp add: pow_mod_def)

lemmas lehmer_simps = lehmer_check_def pow_mod_numeral pow_mod_Suc_0

lemma prime_2: "is_prime 2"
  by (simp add: is_prime_def)

lemma prime_3: "is_prime 3"
  by (rule lehmer [of _ 2 "[2]"]) (simp_all add: lehmer_simps prime_2)

lemma prime_5: "is_prime 5"
  by (rule lehmer [of _ 2 "[2, 2]"]) (simp_all add: lehmer_simps prime_2)

lemma prime_7: "is_prime 7"
  by (rule lehmer [of _ 3 "[2, 3]"]) (simp_all add: lehmer_simps prime_2 prime_3)

lemma prime_11: "is_prime 11"
  by (rule lehmer [of _ 2 "[2, 5]"]) (simp_all add: lehmer_simps prime_2 prime_5)

lemma prime_17: "is_prime 17"
  by (rule lehmer [of _ 3 "[2, 2, 2, 2]"]) (simp_all add: lehmer_simps prime_2)

lemma prime_19: "is_prime 19"
  by (rule lehmer [of _ 2 "[2, 3, 3]"]) (simp_all add: lehmer_simps prime_2 prime_3)

lemma prime_23: "is_prime 23"
  by (rule lehmer [of _ 5 "[2, 11]"]) (simp_all add: lehmer_simps prime_2 prime_11)

lemma prime_67: "is_prime 67"
  by (rule lehmer [of _ 2 "[2, 3, 11]"]) (simp_all add: lehmer_simps prime_2 prime_3 prime_11)

lemma prime_127: "is_prime 127"
  by (rule lehmer [of _ 3 "[2, 3, 3, 7]"]) (simp_all add: lehmer_simps prime_2 prime_3 prime_7)

lemma prime_269: "is_prime 269"
  by (rule lehmer [of _ 2 "[2, 2, 67]"]) (simp_all add: lehmer_simps prime_2 prime_67)

lemma prime_419: "is_prime 419"
  by (rule lehmer [of _ 2 "[2, 11, 19]"]) (simp_all add: lehmer_simps prime_2 prime_11 prime_19)

lemma prime_1471: "is_prime 1471"
  by (rule lehmer [of _ 6 "[2, 3, 5, 7, 7]"])
    (simp_all add: lehmer_simps prime_2 prime_3 prime_5 prime_7)

lemma prime_2153: "is_prime 2153"
  by (rule lehmer [of _ 3 "[2, 2, 2, 269]"]) (simp_all add: lehmer_simps prime_2 prime_269)

lemma prime_51673: "is_prime 51673"
  by (rule lehmer [of _ 7 "[2, 2, 2, 3, 2153]"])
    (simp_all add: lehmer_simps prime_2 prime_3 prime_2153)

lemma prime_319279: "is_prime 319279"
  by (rule lehmer [of _ 3 "[2, 3, 127, 419]"])
    (simp_all add: lehmer_simps prime_2 prime_3 prime_127 prime_419)

lemma prime_456065899: "is_prime 456065899"
  by (rule lehmer [of _ 2 "[2, 3, 1471, 51673]"])
    (simp_all add: lehmer_simps prime_2 prime_3 prime_1471 prime_51673)

lemma pow_MOD_full: "pow_mod 9223372036854775783 3 9223372036854775782 = 1"
  by (simp add: pow_mod_numeral)

lemma pow_MOD_2: "pow_mod 9223372036854775783 3 4611686018427387891 = 9223372036854775782"
  by (simp add: pow_mod_numeral)

lemma pow_MOD_3: "pow_mod 9223372036854775783 3 3074457345618258594 = 8755078512587387851"
  by (simp add: pow_mod_numeral)

lemma pow_MOD_17: "pow_mod 9223372036854775783 3 542551296285575046 = 8464348998524850532"
  by (simp add: pow_mod_numeral)

lemma pow_MOD_23: "pow_mod 9223372036854775783 3 401016175515425034 = 486607776917862132"
  by (simp add: pow_mod_numeral)

lemma pow_MOD_319279: "pow_mod 9223372036854775783 3 28888126174458 = 6351062463548946063"
  by (simp add: pow_mod_numeral)

lemma pow_MOD_456065899: "pow_mod 9223372036854775783 3 20223770418 = 7493501763440727762"
  by (simp add: pow_mod_numeral)

lemma prime_MOD: "is_prime 9223372036854775783"
  by (rule lehmer [of _ 3 "[2, 3, 3, 3, 3, 17, 23, 319279, 456065899]"])
    (simp_all add: lehmer_check_def pow_MOD_full pow_MOD_2 pow_MOD_3 pow_MOD_17
      pow_MOD_23 pow_MOD_319279 pow_MOD_456065899
      prime_2 prime_3 prime_17 prime_23 prime_319279 prime_456065899)

lemma composite_above_MOD:
  assumes "9223372036854775783 < q" and "q < 9223372036854775808"
  shows "\<not> is_prime q"
proof -
  define k where "k = q - 9223372036854775783"
  define tbl :: "(nat \<times> nat) list" where
    "tbl =
      [(1, 2), (2, 3), (3, 2), (4, 13), (5, 2), (6, 11), (7, 2), (8, 3), (9, 2), (10,
       7), (11, 2), (12, 5), (13, 2), (14, 3), (15, 2), (16, 17), (17, 2), (18, 157),
       (19, 2), (20, 3), (21, 2), (22, 5), (23, 2), (24, 7)]"
  have q: "q = 9223372036854775783 + k"
    using assms by (simp add: k_def)
  have "1 \<le> k \<and> k < 25"
    using assms unfolding k_def by linarith
  then have "k \<in> set (map fst tbl)"
    unfolding tbl_def by (simp only: list.map fst_conv list.set insert_iff empty_iff) arith
  then obtain d where kd: "(k, d) \<in> set tbl" by auto
  have "\<forall>(k, d) \<in> set tbl. d dvd 9223372036854775783 + k \<and> 2 \<le> d \<and> d \<le> 157"
    unfolding tbl_def by simp
  with kd q have d: "d dvd q" "2 \<le> d" "d \<le> 157" by auto
  with assms have "d < q" by linarith
  with d show ?thesis by (intro not_primeI [of d])
qed

subsection \<open>The claims\<close>

text \<open>
  C1. The claim's own example fails. On \<open>''2 days, 3 hours, 30 minutes''\<close> the loop
  adds the two segments that a delimiter follows, \<open>2 * 1440 + 3 * 60 = 3060\<close>, and
  returns when the search after the second delimiter fails: the last segment,
  \<open>''30 minutes''\<close>, is never read, and the result is not the total
  \<open>2 * 1440 + 3 * 60 + 30\<close>.
\<close>

theorem get_minutes_drops_last_segment:
  "get_minutes ''2 days, 3 hours, 30 minutes'' = Some 3060
   \<and> get_minutes ''2 days, 3 hours, 30 minutes'' \<noteq> Some (2 * 1440 + 3 * 60 + 30)"
proof -
  have "get_minutes ''2 days, 3 hours, 30 minutes'' = Some 3060" by code_simp
  then show ?thesis by simp
qed


text \<open>
  C3. \<open>is_contains str1 str2\<close> is true exactly when \<open>str2\<close> occurs in \<open>str1\<close> as
  a run of adjacent bytes: \<open>str1\<close> is some prefix, then \<open>str2\<close>, then some suffix. So
  it is true for the empty \<open>str2\<close> and for \<open>str2 = str1\<close>.
\<close>

theorem is_contains_substring:
  "(is_contains str1 str2 \<longleftrightarrow> (\<exists>ps ss. str1 = ps @ str2 @ ss))
   \<and> is_contains str1 [] \<and> is_contains str1 str1"
proof -
  have "str1 = [] @ [] @ str1" "str1 = [] @ str1 @ []" by simp_all
  then show ?thesis unfolding is_contains_iff by blast
qed

text \<open>
  C4. For a string that is an optional sign \<open>sg\<close> followed by one or more decimal
  digits \<open>ds\<close> whose signed value fits \<^verbatim>\<open>int\<close>, \<open>str_to_int\<close> returns that
  value; and for a string that, after its leading white space, does not start with an
  optional sign and a digit, it returns 0.
\<close>

theorem str_to_int_spec:
  "(sg \<in> {[], ''+'', ''-''} \<and> ds \<noteq> [] \<and> (\<forall>c \<in> set ds. isdigit c)
      \<and> - (2 ^ 31) \<le> signed_value sg ds \<and> signed_value sg ds < 2 ^ 31
    \<longrightarrow> sint (str_to_int (sg @ ds)) = signed_value sg ds)
   \<and> (\<not> (\<exists>sg' ds' rest. sg' \<in> {[], ''+'', ''-''} \<and> ds' \<noteq> [] \<and> (\<forall>c \<in> set ds'. isdigit c)
          \<and> dropWhile isspace s = sg' @ ds' @ rest)
    \<longrightarrow> str_to_int s = 0)"
  using str_to_int_signed_digits [of sg ds] strtol_no_digit [of s]
  by (auto simp: str_to_int_def atoi_def)

theorem str_to_int_spec_witness:
  "sint (str_to_int ''-2147483648'') = - 2147483648 \<and> str_to_int ''  +x12'' = 0"
proof -
  have d: "\<forall>c \<in> set ''2147483648''. isdigit c" by (simp add: isdigit_def)
  have v: "signed_value ''-'' ''2147483648'' = - 2147483648"
    by (simp add: signed_value_def digit_val_def)
  have n: "\<not> (\<exists>sg' ds' rest. sg' \<in> {[], ''+'', ''-''} \<and> ds' \<noteq> []
      \<and> (\<forall>c \<in> set ds'. isdigit c) \<and> dropWhile isspace ''  +x12'' = sg' @ ds' @ rest)"
    by (auto simp: isspace_def isdigit_def Cons_eq_append_conv)
  from str_to_int_spec [of "''-''" "''2147483648''" "''  +x12''"] d v n
  show ?thesis by simp
qed

text \<open>
  C5. The production header declares \<open>str_to_int\<close>, \<open>float_to_int\<close>,
  \<open>to_string\<close>, \<open>get_minutes\<close> and \<open>is_contains\<close>, and every parameter type
  and return type of these is one of the supported types.
\<close>

theorem udf_types_supported:
  "map udf_name ExprFunctions_prod =
     [''str_to_int'', ''float_to_int'', ''to_string'', ''get_minutes'', ''is_contains'']
   \<and> (\<forall>f \<in> set ExprFunctions_prod.
        supported (udf_ret f) \<and> (\<forall>t \<in> set (udf_params f). supported t))"
  by (simp add: ExprFunctions_prod_def supported_def)

theorem udf_types_supported_witness:
  "\<lparr>udf_name = ''is_contains'', udf_params = [T_string, T_string], udf_ret = T_bool\<rparr>
     \<in> set ExprFunctions_prod
   \<and> supported T_bool \<and> supported T_string"
proof -
  have m: "\<lparr>udf_name = ''is_contains'', udf_params = [T_string, T_string], udf_ret = T_bool\<rparr>
     \<in> set ExprFunctions_prod"
    by (simp add: ExprFunctions_prod_def)
  from udf_types_supported m show ?thesis by fastforce
qed

text \<open>
  C7. The fixture header declares one function, \<open>add_3\<close>, and \<open>add_3 num\<close> is
  \<open>num + 3\<close> modulo \<open>2 ^ 32\<close>: read unsigned, and read as the two's complement
  \<^verbatim>\<open>int\<close>.
\<close>

theorem add_3_spec:
  "map udf_name ExprFunctions_fixture = [''add_3'']
   \<and> uint (add_3 num) = (uint num + 3) mod 2 ^ 32
   \<and> sint (add_3 num) = (sint num + 3 + 2 ^ 31) mod 2 ^ 32 - 2 ^ 31"
proof -
  have "uint (num + 3) = (uint num + 3) mod 2 ^ 32"
    by (simp add: uint_word_ariths)
  moreover have "sint (num + 3) = (sint num + 3 + 2 ^ 31) mod 2 ^ 32 - 2 ^ 31"
    by (simp add: sint_word_ariths signed_take_bit_eq_take_bit_shift take_bit_eq_mod)
  ultimately show ?thesis
    by (simp add: add_3_def ExprFunctions_fixture_def)
qed

text \<open>
  C8. A non-empty string in which the delimiter \<open>'', ''\<close> does not occur gives 0: the
  loop body never runs. So a segment that no delimiter follows, as in
  \<open>''90 minutes''\<close>, adds nothing.
\<close>

theorem get_minutes_no_delim:
  assumes "s \<noteq> []" and "\<not> (\<exists>ps ss. s = ps @ '', '' @ ss)"
  shows "get_minutes s = Some 0"
proof -
  from assms(2) have "find_list delim s = None"
    using find_list_None_iff [of delim s] by (simp add: delim_def)
  then show ?thesis by (simp add: get_minutes_rest gm_rest_None)
qed

theorem get_minutes_no_delim_witness:
  "''90 minutes'' \<noteq> [] \<and> get_minutes ''90 minutes'' = Some 0"
proof -
  have nd: "\<not> (\<exists>ps ss. ''90 minutes'' = ps @ '', '' @ ss)"
    using find_list_None_iff [of "'', ''" "''90 minutes''"] by simp
  have ne: "''90 minutes'' \<noteq> []" by simp
  from get_minutes_no_delim [OF ne nd] show ?thesis by simp
qed

text \<open>
  C9. For a non-empty \<open>s1\<close> that ends with the delimiter and any \<open>s2\<close>, all three
  calls return, and the result for \<open>s1 @ s2\<close> is the sum of the results for \<open>s1\<close>
  and \<open>s2\<close> in \<^verbatim>\<open>int\<close> arithmetic, that is modulo \<open>2 ^ 32\<close>: the sum of the two
  values itself whenever that sum is an \<^verbatim>\<open>int\<close>.
\<close>

theorem get_minutes_additive:
  assumes "s1 \<noteq> []" and "s1 = u @ '', ''"
  shows "\<exists>a b r. get_minutes s1 = Some a \<and> get_minutes s2 = Some b
    \<and> get_minutes (s1 @ s2) = Some r
    \<and> r = a + b
    \<and> sint r = (sint a + sint b + 2 ^ 31) mod 2 ^ 32 - 2 ^ 31
    \<and> (- (2 ^ 31) \<le> sint a + sint b \<and> sint a + sint b < 2 ^ 31
         \<longrightarrow> sint r = sint a + sint b)"
proof -
  from assms(2) have "s1 = [] \<or> (\<exists>u. s1 = u @ delim)" by (auto simp: delim_def)
  then have "gm_rest (s1 @ s2) 0 = gm_rest s2 (gm_rest s1 0)" by (rule gm_rest_append)
  also have "\<dots> = gm_rest s1 0 + gm_rest s2 0" by (rule gm_rest_acc)
  finally have r: "get_minutes (s1 @ s2) = Some (gm_rest s1 0 + gm_rest s2 0)"
    by (simp add: get_minutes_rest)
  have w: "sint (a + b) = (sint a + sint b + 2 ^ 31) mod 2 ^ 32 - 2 ^ 31" for a b :: cint
    by (simp add: sint_word_ariths signed_take_bit_eq_take_bit_shift take_bit_eq_mod)
  have f: "sint (a + b) = sint a + sint b"
    if "- (2 ^ 31) \<le> sint a + sint b" "sint a + sint b < 2 ^ 31" for a b :: cint
    using that by (simp add: sint_word_ariths signed_take_bit_int_eq_self)
  show ?thesis
    using r w [of "gm_rest s1 0" "gm_rest s2 0"] f [of "gm_rest s1 0" "gm_rest s2 0"]
    by (simp add: get_minutes_rest)
qed

theorem get_minutes_additive_witness:
  "map_option sint (get_minutes ''2 days, '') = Some 2880
   \<and> map_option sint (get_minutes ''3 hours, 30 minutes'') = Some 180
   \<and> map_option sint (get_minutes (''2 days, '' @ ''3 hours, 30 minutes'')) = Some (2880 + 180)"
proof -
  have a: "get_minutes ''2 days, '' = Some 2880" by code_simp
  have b: "get_minutes ''3 hours, 30 minutes'' = Some 180" by code_simp
  have ne: "''2 days, '' \<noteq> []" by simp
  have e: "''2 days, '' = ''2 days'' @ '', ''" by simp
  from get_minutes_additive [OF ne e, of "''3 hours, 30 minutes''"] a b
  show ?thesis by auto
qed

text \<open>
  Over the values the equation fails where the sum leaves the range of \<^verbatim>\<open>int\<close>:
  \<open>2147483647\<close> and \<open>1\<close> for the two parts, \<open>- 2147483648\<close> for the whole.
\<close>

theorem get_minutes_additive_counterexample:
  "map_option sint (get_minutes ''2147483647 minutes, '') = Some 2147483647
   \<and> map_option sint (get_minutes ''1 minutes, '') = Some 1
   \<and> map_option sint (get_minutes (''2147483647 minutes, '' @ ''1 minutes, ''))
       = Some (- 2147483648)
   \<and> (- 2147483648 :: int) \<noteq> 2147483647 + 1"
proof -
  have a: "get_minutes ''2147483647 minutes, '' = Some 2147483647" by code_simp
  have b: "get_minutes ''1 minutes, '' = Some 1" by code_simp
  have c: "get_minutes ''2147483647 minutes, 1 minutes, '' = Some 2147483648"
    by code_simp
  show ?thesis by (simp add: a b c)
qed

text \<open>
  C10. \<^verbatim>\<open>BASE\<close> is \<open>2 ^ 63 = 9223372036854775808\<close>; \<^verbatim>\<open>MOD\<close> is
  \<open>9223372036854775783\<close>, which is prime and below \<^verbatim>\<open>BASE\<close>, and every prime
  below \<^verbatim>\<open>BASE\<close> is at most \<^verbatim>\<open>MOD\<close>.
\<close>

theorem ExprUtil_constants:
  "unat BASE = 2 ^ 63 \<and> unat BASE = 9223372036854775808
   \<and> sint MOD = 9223372036854775783
   \<and> is_prime (nat (sint MOD))
   \<and> nat (sint MOD) < unat BASE
   \<and> (\<forall>q. is_prime q \<and> q < unat BASE \<longrightarrow> q \<le> nat (sint MOD))"
proof -
  have b: "unat BASE = 9223372036854775808" by (simp add: BASE_def)
  have m: "sint MOD = 9223372036854775783" by (simp add: MOD_def)
  have n: "nat (sint MOD) = 9223372036854775783" by (simp add: m)
  have "q \<le> 9223372036854775783" if "is_prime q" "q < 9223372036854775808" for q
    using that composite_above_MOD [of q] by (cases "9223372036854775783 < q") auto
  then show ?thesis
    using prime_MOD by (simp add: b m)
qed

theorem ExprUtil_constants_witness:
  "is_prime 7 \<and> 7 < unat BASE \<and> 7 \<le> nat (sint MOD)"
proof -
  note p = prime_7
  have "7 < unat BASE" by (simp add: BASE_def)
  with p ExprUtil_constants show ?thesis by blast
qed

end
